theory Spec2Isabelle
  imports Main "HOL-Library.FSet" "HOL-Library.List_Lexorder" "HOL-Library.AList"
begin

section \<open>Strings\<close>

text \<open>
  A Python \<open>str\<close> is a sequence of Unicode code points; a code point is a natural number.
  \<open>py\<close> embeds an ASCII literal. The backslash (code point 92) cannot be written inside an
  Isabelle string literal, so it is always given by its number.
\<close>

type_synonym cp = nat
type_synonym pystr = "nat list"

definition py :: "string \<Rightarrow> pystr" where
  "py s = map of_char s"

text \<open>\<open>str(i)\<close> of a non-negative Python int: its decimal digits.\<close>

fun str_of_nat :: "nat \<Rightarrow> pystr" where
  "str_of_nat n = (if n < 10 then [48 + n] else str_of_nat (n div 10) @ [48 + n mod 10])"

declare str_of_nat.simps [simp del]

section \<open>The Unicode tables the program reads\<close>

text \<open>
  Whitespace as \<open>str.strip()\<close> and the pattern \<open>\s\<close> read it (CPython's
  \<open>Py_UNICODE_ISSPACE\<close>): U+0009..U+000D, U+001C..U+0020, U+0085, U+00A0, U+1680,
  U+2000..U+200A, U+2028, U+2029, U+202F, U+205F, U+3000.
\<close>

definition py_isspace :: "cp \<Rightarrow> bool" where
  "py_isspace c \<longleftrightarrow>
     (9 \<le> c \<and> c \<le> 13) \<or> (28 \<le> c \<and> c \<le> 32) \<or> c = 133 \<or> c = 160 \<or> c = 5760 \<or>
     (8192 \<le> c \<and> c \<le> 8202) \<or> c = 8232 \<or> c = 8233 \<or> c = 8239 \<or> c = 8287 \<or> c = 12288"

text \<open>
  The other tables of the Unicode character database are parameters of the model:
  \<open>str.isalnum\<close> of one character, \<open>str.lower\<close>, \<open>unicodedata.normalize("NFKD", _)\<close>
  and the lookup of a character name (read by the \<open>\N{...}\<close> escape).
\<close>

record unicode_db =
  isalnum :: "cp \<Rightarrow> bool"
  lower :: "pystr \<Rightarrow> pystr"
  normalize_NFKD :: "pystr \<Rightarrow> pystr"
  lookup_name :: "nat list \<Rightarrow> cp option"

definition ascii_isalnum :: "cp \<Rightarrow> bool" where
  "ascii_isalnum c \<longleftrightarrow> (48 \<le> c \<and> c \<le> 57) \<or> (65 \<le> c \<and> c \<le> 90) \<or> (97 \<le> c \<and> c \<le> 122)"

definition ascii_lower :: "cp \<Rightarrow> cp" where
  "ascii_lower c = (if 65 \<le> c \<and> c \<le> 90 then c + 32 else c)"

definition is_ascii :: "pystr \<Rightarrow> bool" where
  "is_ascii s = list_all (\<lambda>c. c < 128) s"

text \<open>What every version of the tables says about ASCII.\<close>

definition ascii_conformant :: "unicode_db \<Rightarrow> bool" where
  "ascii_conformant db \<longleftrightarrow>
     (\<forall>c < 128. isalnum db c = ascii_isalnum c) \<and>
     (\<forall>s. is_ascii s \<longrightarrow> lower db s = map ascii_lower s) \<and>
     (\<forall>s. is_ascii s \<longrightarrow> normalize_NFKD db s = s)"

text \<open>
  An excerpt of the tables, for evaluating the program on concrete inputs: ASCII, and
  the Cyrillic letters U+0410..U+044F without U+0419 and U+0439 (the two of them that
  NFKD decomposes). On these code points it is what CPython computes: the letters are
  alphanumeric, the capitals U+0410..U+042F lower to U+0430..U+044F, NFKD leaves them
  as they are. No theorem evaluates it on any other code point.
\<close>

definition excerpt_isalnum :: "cp \<Rightarrow> bool" where
  "excerpt_isalnum c \<longleftrightarrow> ascii_isalnum c \<or> (1040 \<le> c \<and> c \<le> 1103 \<and> c \<noteq> 1049 \<and> c \<noteq> 1081)"

definition excerpt_lower :: "cp \<Rightarrow> cp" where
  "excerpt_lower c = (if (65 \<le> c \<and> c \<le> 90) \<or> (1040 \<le> c \<and> c \<le> 1071) then c + 32 else c)"

definition ucd_excerpt :: unicode_db where
  "ucd_excerpt = \<lparr> isalnum = excerpt_isalnum, lower = map excerpt_lower,
     normalize_NFKD = (\<lambda>s. s), lookup_name = (\<lambda>n. None) \<rparr>"

section \<open>Key slugifier\<close>

text \<open>
  \<^verbatim>\<open>
  def slugify_key(s: str) -> str:
      s = s.strip().lower()
      s = unicodedata.normalize("NFKD", s)
      out = []
      prev_dot = False
      for ch in s:
          if ch.isalnum():
              out.append(ch)
              prev_dot = False
          else:
              if not prev_dot:
                  out.append(".")
                  prev_dot = True
      key = "".join(out).strip(".")
      if not key:
          key = "text"
      if len(key) > 60:
          key = key[:60].strip(".")
      return key
  \<close>
\<close>

definition strip_chars :: "(cp \<Rightarrow> bool) \<Rightarrow> pystr \<Rightarrow> pystr" where
  "strip_chars P s = rev (dropWhile P (rev (dropWhile P s)))"

definition py_strip :: "pystr \<Rightarrow> pystr" where
  "py_strip s = strip_chars py_isspace s"

definition strip_dots :: "pystr \<Rightarrow> pystr" where
  "strip_dots s = strip_chars (\<lambda>c. c = 46) s"

fun slug_loop :: "unicode_db \<Rightarrow> pystr \<Rightarrow> pystr \<Rightarrow> bool \<Rightarrow> pystr" where
  "slug_loop db [] out prev_dot = out"
| "slug_loop db (ch # s) out prev_dot =
     (if isalnum db ch then slug_loop db s (out @ [ch]) False
      else if \<not> prev_dot then slug_loop db s (out @ [46]) True
      else slug_loop db s out prev_dot)"

text \<open>The key before the cap at 60 characters.\<close>

definition slug_uncapped :: "unicode_db \<Rightarrow> pystr \<Rightarrow> pystr" where
  "slug_uncapped db s =
     (let s1 = lower db (py_strip s);
          s2 = normalize_NFKD db s1;
          key = strip_dots (slug_loop db s2 [] False)
      in if key = [] then py ''text'' else key)"

definition slugify_key :: "unicode_db \<Rightarrow> pystr \<Rightarrow> pystr" where
  "slugify_key db s =
     (let key = slug_uncapped db s
      in if length key > 60 then strip_dots (take 60 key) else key)"

section \<open>Key uniqueness resolver\<close>

text \<open>
  \<^verbatim>\<open>
  def generate_unique_key(base: str, existing_keys: set):
      key = base
      i = 2
      while key in existing_keys:
          key = f"{base}.{i}"
          i += 1
      return key
  \<close>
  A Python \<open>set\<close> is finite: \<open>pystr fset\<close>. The loop state is \<open>(key, i)\<close>.
  \<open>suffixed base i\<close> is the f-string \<open>f"{base}.{i}"\<close>.
\<close>

definition suffixed :: "pystr \<Rightarrow> nat \<Rightarrow> pystr" where
  "suffixed base i = base @ [46] @ str_of_nat i"

lemma str_of_nat_nonempty: "str_of_nat n \<noteq> []"
  by (subst str_of_nat.simps) simp

lemma str_of_nat_small: "n < 10 \<Longrightarrow> str_of_nat n = [48 + n]"
  by (subst str_of_nat.simps) simp

lemma str_of_nat_big: "\<not> n < 10 \<Longrightarrow> str_of_nat n = str_of_nat (n div 10) @ [48 + n mod 10]"
  by (subst str_of_nat.simps) simp

lemma str_of_nat_inj: "str_of_nat m = str_of_nat n \<Longrightarrow> m = n"
proof (induction m arbitrary: n rule: str_of_nat.induct)
  case (1 m)
  show ?case
  proof (cases "m < 10")
    case small_m: True
    show ?thesis
    proof (cases "n < 10")
      case True
      with small_m "1.prems" show ?thesis by (simp add: str_of_nat_small)
    next
      case False
      with small_m "1.prems" show ?thesis
        by (simp add: str_of_nat_small str_of_nat_big str_of_nat_nonempty [THEN not_sym])
    qed
  next
    case big_m: False
    show ?thesis
    proof (cases "n < 10")
      case True
      with big_m "1.prems" show ?thesis
        by (simp add: str_of_nat_small str_of_nat_big str_of_nat_nonempty)
    next
      case False
      with big_m "1.prems" have eq: "str_of_nat (m div 10) = str_of_nat (n div 10)"
        and md: "m mod 10 = n mod 10"
        by (simp_all add: str_of_nat_big)
      from "1.IH" [OF big_m eq] have "m div 10 = n div 10" .
      with md show ?thesis by (metis div_mult_mod_eq)
    qed
  qed
qed

lemma suffixed_inj: "suffixed base i = suffixed base j \<Longrightarrow> i = j"
  by (simp add: suffixed_def str_of_nat_inj)

lemma finite_suffix_indices: "finite {j. suffixed base j |\<in>| ks}"
proof -
  have "inj (suffixed base)"
    by (rule injI) (rule suffixed_inj)
  then have "finite (suffixed base -` fset ks)"
    by (intro finite_vimageI) simp_all
  moreover have "{j. suffixed base j |\<in>| ks} = suffixed base -` fset ks"
    by auto
  ultimately show ?thesis by simp
qed

definition pending_suffixes :: "pystr \<Rightarrow> pystr fset \<Rightarrow> nat \<Rightarrow> nat set" where
  "pending_suffixes base ks i = {j. i \<le> j \<and> suffixed base j |\<in>| ks}"

lemma finite_pending_suffixes: "finite (pending_suffixes base ks i)"
  by (rule finite_subset [OF _ finite_suffix_indices [of base ks]])
     (auto simp: pending_suffixes_def)

lemma pending_suffixes_step:
  "pending_suffixes base ks i =
     (if suffixed base i |\<in>| ks then insert i (pending_suffixes base ks (Suc i))
      else pending_suffixes base ks (Suc i))"
  by (auto simp: pending_suffixes_def Suc_le_eq le_less)

function unique_key_loop :: "pystr \<Rightarrow> pystr fset \<Rightarrow> pystr \<Rightarrow> nat \<Rightarrow> pystr" where
  "unique_key_loop base existing_keys key i =
     (if key |\<in>| existing_keys
      then unique_key_loop base existing_keys (suffixed base i) (i + 1)
      else key)"
  by pat_completeness auto
termination
proof (relation "measure (\<lambda>(base, ks, key, i).
         card (pending_suffixes base ks i) + (if key |\<in>| ks then 1 else 0))")
  show "wf (measure (\<lambda>(base, ks, key, i).
         card (pending_suffixes base ks i) + (if key |\<in>| ks then 1 else 0)))"
    by simp
next
  fix base :: pystr and existing_keys :: "pystr fset" and key :: pystr and i :: nat
  assume "key |\<in>| existing_keys"
  moreover have "i \<notin> pending_suffixes base existing_keys (Suc i)"
    by (simp add: pending_suffixes_def)
  ultimately show "((base, existing_keys, suffixed base i, i + 1), (base, existing_keys, key, i))
      \<in> measure (\<lambda>(base, ks, key, i).
         card (pending_suffixes base ks i) + (if key |\<in>| ks then 1 else 0))"
    using pending_suffixes_step [of base existing_keys i]
      finite_pending_suffixes [of base existing_keys "Suc i"]
    by simp
qed

declare unique_key_loop.simps [simp del]

text \<open>
  The function only reads \<open>existing_keys\<close>; the set is returned beside the key so that
  its being left as it was is part of the result.
\<close>

definition generate_unique_key :: "pystr \<Rightarrow> pystr fset \<Rightarrow> pystr \<times> pystr fset" where
  "generate_unique_key base existing_keys =
     (unique_key_loop base existing_keys base 2, existing_keys)"

section \<open>Literal escaping codec\<close>

text \<open>
  \<^verbatim>\<open>
  def unescape(s: str) -> str:
      return bytes(s, "utf-8").decode("unicode_escape")

  def escape_for_strings(s: str) -> str:
      return s.replace("\\", "\\\\").replace('"', '\\"')
  \<close>
  Both codecs raise on input they cannot handle; a raise is the \<open>Inl\<close> of a result.
\<close>

datatype error = UnicodeEncodeError | UnicodeDecodeError | KeyError

text \<open>UTF-8 of one code point; the surrogates U+D800..U+DFFF cannot be encoded.\<close>

definition utf8_encode_cp :: "cp \<Rightarrow> nat list option" where
  "utf8_encode_cp c =
     (if c < 128 then Some [c]
      else if c < 2048 then Some [192 + c div 64, 128 + c mod 64]
      else if c < 65536 then
        (if 55296 \<le> c \<and> c \<le> 57343 then None
         else Some [224 + c div 4096, 128 + (c div 64) mod 64, 128 + c mod 64])
      else if c < 1114112 then
        Some [240 + c div 262144, 128 + (c div 4096) mod 64, 128 + (c div 64) mod 64,
              128 + c mod 64]
      else None)"

fun utf8_encode :: "pystr \<Rightarrow> error + nat list" where
  "utf8_encode [] = Inr []"
| "utf8_encode (c # s) =
     (case utf8_encode_cp c of
        None \<Rightarrow> Inl UnicodeEncodeError
      | Some bs \<Rightarrow> (case utf8_encode s of Inl e \<Rightarrow> Inl e | Inr r \<Rightarrow> Inr (bs @ r)))"

text \<open>
  The \<open>unicode_escape\<close> decoder of CPython, in strict mode. A byte that is not a
  backslash is the code point of its value (Latin-1). After a backslash:
  a newline is dropped; \<open>\\ \' \" \b \f \t \n \r \v \a\<close> are the usual characters;
  one to three octal digits, \<open>\xXX\<close>, \<open>\uXXXX\<close>, \<open>\UXXXXXXXX\<close> and \<open>\N{name}\<close> give
  a code point; any other byte is kept together with its backslash (CPython only warns).
  A truncated or malformed escape and a backslash at the end raise \<open>UnicodeDecodeError\<close>.
\<close>

definition is_octal :: "nat \<Rightarrow> bool" where
  "is_octal c \<longleftrightarrow> 48 \<le> c \<and> c \<le> 55"

definition octal_escape :: "nat \<Rightarrow> nat list \<Rightarrow> nat \<times> nat list" where
  "octal_escape c s =
     (let ch = c - 48 in
      case s of
        [] \<Rightarrow> (ch, s)
      | d # s1 \<Rightarrow>
          if is_octal d then
            (let ch = ch * 8 + (d - 48) in
             case s1 of
               [] \<Rightarrow> (ch, s1)
             | e # s2 \<Rightarrow> if is_octal e then (ch * 8 + (e - 48), s2) else (ch, s1))
          else (ch, s))"

definition hex_value :: "nat \<Rightarrow> nat option" where
  "hex_value c =
     (if 48 \<le> c \<and> c \<le> 57 then Some (c - 48)
      else if 97 \<le> c \<and> c \<le> 102 then Some (c - 87)
      else if 65 \<le> c \<and> c \<le> 70 then Some (c - 55)
      else None)"

fun hex_digits :: "nat \<Rightarrow> nat \<Rightarrow> nat list \<Rightarrow> (nat \<times> nat list) option" where
  "hex_digits 0 ch s = Some (ch, s)"
| "hex_digits (Suc count) ch [] = None"
| "hex_digits (Suc count) ch (c # s) =
     (case hex_value c of None \<Rightarrow> None | Some d \<Rightarrow> hex_digits count (ch * 16 + d) s)"

definition hex_escape :: "nat \<Rightarrow> nat list \<Rightarrow> (pystr \<times> nat list) option" where
  "hex_escape count s =
     (case hex_digits count 0 s of
        None \<Rightarrow> None
      | Some (ch, r) \<Rightarrow> if ch > 1114111 then None else Some ([ch], r))"

definition named_escape :: "unicode_db \<Rightarrow> nat list \<Rightarrow> (pystr \<times> nat list) option" where
  "named_escape db s =
     (case s of
        [] \<Rightarrow> None
      | c # s1 \<Rightarrow>
          if c = 123 then
            (let name = takeWhile (\<lambda>x. x \<noteq> 125) s1;
                 r = dropWhile (\<lambda>x. x \<noteq> 125) s1
             in if r = [] \<or> name = [] then None
                else (case lookup_name db name of
                        None \<Rightarrow> None
                      | Some ch \<Rightarrow> Some ([ch], tl r)))
          else None)"

text \<open>
  One escape: the byte \<open>c\<close> after the backslash and the input \<open>s\<close> after it give the
  characters written and the input left, or \<open>None\<close> for a raise.
\<close>

definition escape_step :: "unicode_db \<Rightarrow> nat \<Rightarrow> nat list \<Rightarrow> (pystr \<times> nat list) option" where
  "escape_step db c s =
     (if c = 10 then Some ([], s)
      else if c = 92 then Some ([92], s)
      else if c = 39 then Some ([39], s)
      else if c = 34 then Some ([34], s)
      else if c = 98 then Some ([8], s)
      else if c = 102 then Some ([12], s)
      else if c = 116 then Some ([9], s)
      else if c = 110 then Some ([10], s)
      else if c = 114 then Some ([13], s)
      else if c = 118 then Some ([11], s)
      else if c = 97 then Some ([7], s)
      else if is_octal c then (case octal_escape c s of (ch, r) \<Rightarrow> Some ([ch], r))
      else if c = 120 then hex_escape 2 s
      else if c = 117 then hex_escape 4 s
      else if c = 85 then hex_escape 8 s
      else if c = 78 then named_escape db s
      else Some ([92, c], s))"

lemma hex_digits_length: "hex_digits count ch s = Some (v, r) \<Longrightarrow> length r \<le> length s"
  by (induction count ch s rule: hex_digits.induct) (auto split: option.splits)

lemma escape_step_length: "escape_step db c s = Some (w, r) \<Longrightarrow> length r \<le> length s"
proof -
  have oct: "length (snd (octal_escape c s)) \<le> length s"
    by (auto simp: octal_escape_def Let_def split: list.splits)
  have hex: "hex_escape n s = Some (w, r) \<Longrightarrow> length r \<le> length s" for n
    by (auto simp: hex_escape_def split: option.splits if_splits dest: hex_digits_length)
  have named: "named_escape db s = Some (w, r) \<Longrightarrow> length r \<le> length s"
  proof -
    assume a: "named_escape db s = Some (w, r)"
    then obtain s1 where s1: "s = 123 # s1" and r: "r = tl (dropWhile (\<lambda>x. x \<noteq> 125) s1)"
      by (auto simp: named_escape_def Let_def split: list.splits if_splits option.splits)
    have "length (tl (dropWhile (\<lambda>x. x \<noteq> 125) s1)) \<le> length s1"
      using length_dropWhile_le [of "\<lambda>x. x \<noteq> 125" s1] by simp
    with s1 r show ?thesis by simp
  qed
  assume "escape_step db c s = Some (w, r)"
  then show ?thesis
    using oct hex named
    by (auto simp: escape_step_def split: if_splits prod.splits)
qed

function unicode_escape_decode :: "unicode_db \<Rightarrow> nat list \<Rightarrow> error + pystr" where
  "unicode_escape_decode db s =
     (case s of
        [] \<Rightarrow> Inr []
      | c # s1 \<Rightarrow>
          if c \<noteq> 92 then
            (case unicode_escape_decode db s1 of Inl e \<Rightarrow> Inl e | Inr t \<Rightarrow> Inr (c # t))
          else
            (case s1 of
               [] \<Rightarrow> Inl UnicodeDecodeError
             | c' # s2 \<Rightarrow>
                 (case escape_step db c' s2 of
                    None \<Rightarrow> Inl UnicodeDecodeError
                  | Some (w, r) \<Rightarrow>
                      (case unicode_escape_decode db r of
                         Inl e \<Rightarrow> Inl e
                       | Inr t \<Rightarrow> Inr (w @ t)))))"
  by pat_completeness auto
termination
proof (relation "measure (\<lambda>(db, s). length s)")
  show "wf (measure (\<lambda>(db, s). length s))" by simp
next
  fix db :: unicode_db and s s1 :: "nat list" and c :: nat
  assume "s = c # s1"
  then show "((db, s1), (db, s)) \<in> measure (\<lambda>(db, s). length s)" by simp
next
  fix db :: unicode_db and s s1 s2 r :: "nat list" and c c' :: nat and x :: "pystr \<times> nat list"
    and w :: pystr
  assume "s = c # s1" "s1 = c' # s2" "escape_step db c' s2 = Some x" "(w, r) = x"
  then have "length r \<le> length s2"
    using escape_step_length [of db c' s2 w r] by simp
  with \<open>s = c # s1\<close> \<open>s1 = c' # s2\<close>
  show "((db, r), (db, s)) \<in> measure (\<lambda>(db, s). length s)" by simp
qed

declare unicode_escape_decode.simps [simp del]

definition unescape :: "unicode_db \<Rightarrow> pystr \<Rightarrow> error + pystr" where
  "unescape db s =
     (case utf8_encode s of Inl e \<Rightarrow> Inl e | Inr b \<Rightarrow> unicode_escape_decode db b)"



section \<open>The two patterns\<close>

text \<open>
  \<^verbatim>\<open>
  TEXT_CALL_RE = re.compile(
      r'Text\(\s*"((?:[^"\\]|\\.)+)"\s*\)(?!\s*\.localized)'
  )
  LOC_LINE_RE = re.compile(
      r'^\s*"((?:[^"\\]|\\.)+)"\s*=\s*"((?:[^"\\]|\\.)+)"\s*;\s*$'
  )
  \<close>
  Both patterns are matched by a deterministic scan, because at no point the backtracking
  matcher of \<open>re\<close> has a second way to go on: after each \<open>\s*\<close> comes a character that is
  not whitespace (a quote, \<open>)\<close>, \<open>=\<close>, \<open>;\<close>, \<open>.\<close>), so only the longest run of whitespace can
  be followed by it; the two alternatives of the group start with different characters
  (anything but quote and backslash, or a backslash), and the group is followed by a quote,
  with which no alternative starts, so only the longest sequence of alternatives can be
  followed by it. \<open>.\<close> matches any character but the newline (code point 10).
\<close>

fun starts_with :: "pystr \<Rightarrow> pystr \<Rightarrow> bool" where
  "starts_with [] s = True"
| "starts_with (p # ps) [] = False"
| "starts_with (p # ps) (c # s) = (p = c \<and> starts_with ps s)"

definition skip_ws :: "pystr \<Rightarrow> pystr" where
  "skip_ws s = dropWhile py_isspace s"

text \<open>\<open>expect c s\<close>: the input after the character \<open>c\<close>, when \<open>s\<close> starts with it.\<close>

definition expect :: "cp \<Rightarrow> pystr \<Rightarrow> pystr option" where
  "expect c s = (case s of [] \<Rightarrow> None | x # r \<Rightarrow> if x = c then Some r else None)"

text \<open>
  \<open>(?:[^"\\]|\\.)*\<close>, greedy: the longest sequence of alternatives at the start of the
  input, and the input after it.
\<close>

fun literal_items :: "pystr \<Rightarrow> pystr \<times> pystr" where
  "literal_items [] = ([], [])"
| "literal_items (c # s) =
     (if c = 34 then ([], c # s)
      else if c = 92 then
        (case s of
           [] \<Rightarrow> ([], c # s)
         | d # s' \<Rightarrow>
             if d = 10 then ([], c # s)
             else (case literal_items s' of (g, r) \<Rightarrow> (c # d # g, r)))
      else (case literal_items s of (g, r) \<Rightarrow> (c # g, r)))"

text \<open>\<open>"((?:[^"\\]|\\.)+)"\<close>: the group and the input after the closing quote.\<close>

definition quoted_group :: "pystr \<Rightarrow> (pystr \<times> pystr) option" where
  "quoted_group s =
     (case expect 34 s of
        None \<Rightarrow> None
      | Some s1 \<Rightarrow>
          (case literal_items s1 of
             (g, s2) \<Rightarrow>
               if g = [] then None
               else (case expect 34 s2 of None \<Rightarrow> None | Some s3 \<Rightarrow> Some (g, s3))))"

text \<open>The lookahead \<open>\s*\.localized\<close>.\<close>

definition localized_ahead :: "pystr \<Rightarrow> bool" where
  "localized_ahead s = starts_with (py ''.localized'') (skip_ws s)"

text \<open>
  A match of \<open>TEXT_CALL_RE\<close> at the start of the input: \<open>group(0)\<close>, \<open>group(1)\<close> and the
  input after the match.
\<close>

definition match_text_call :: "pystr \<Rightarrow> (pystr \<times> pystr \<times> pystr) option" where
  "match_text_call s =
     (if starts_with (py ''Text('') s then
        (case quoted_group (skip_ws (drop 5 s)) of
           None \<Rightarrow> None
         | Some (g, s1) \<Rightarrow>
             (case expect 41 (skip_ws s1) of
                None \<Rightarrow> None
              | Some s2 \<Rightarrow>
                  if localized_ahead s2 then None
                  else Some (take (length s - length s2) s, g, s2)))
      else None)"

text \<open>
  \<open>LOC_LINE_RE.match(line)\<close>: \<open>group(1)\<close> and \<open>group(2)\<close>. The final \<open>\s*$\<close> matches when
  only whitespace is left (the newline that ends the line is whitespace).
\<close>

definition match_loc_line :: "pystr \<Rightarrow> (pystr \<times> pystr) option" where
  "match_loc_line line =
     (case quoted_group (skip_ws line) of
        None \<Rightarrow> None
      | Some (k, s1) \<Rightarrow>
          (case expect 61 (skip_ws s1) of
             None \<Rightarrow> None
           | Some s2 \<Rightarrow>
               (case quoted_group (skip_ws s2) of
                  None \<Rightarrow> None
                | Some (v, s3) \<Rightarrow>
                    (case expect 59 (skip_ws s3) of
                       None \<Rightarrow> None
                     | Some s4 \<Rightarrow> if skip_ws s4 = [] then Some (k, v) else None))))"

section \<open>Dictionaries\<close>

text \<open>
  A Python \<open>dict\<close> keeps its keys in insertion order: an association list with
  \<open>d.get(k)\<close> as \<^const>\<open>map_of\<close>, \<open>d[k] = v\<close> as \<^const>\<open>AList.update\<close> (the value is
  replaced in place, a new key goes to the end) and \<open>d.setdefault(k, v)\<close>.
\<close>

type_synonym dict = "(pystr \<times> pystr) list"

definition setdefault :: "pystr \<Rightarrow> pystr \<Rightarrow> dict \<Rightarrow> dict" where
  "setdefault k v d = (case map_of d k of None \<Rightarrow> d @ [(k, v)] | Some _ \<Rightarrow> d)"

section \<open>Translation table store: parsing\<close>

text \<open>
  \<^verbatim>\<open>
  def parse_localizable(path: Path):
      key_to_val, val_to_key = {}, {}
      if not path or not path.exists():
          return key_to_val, val_to_key
      with path.open("r", encoding="utf-8") as f:
          for line in f:
              m = LOC_LINE_RE.match(line)
              if m:
                  k, v = m.group(1), m.group(2)
                  key_to_val[k] = v
                  # prefer first seen mapping (avoid overwriting on duplicates)
                  val_to_key.setdefault(v, k)
      return key_to_val, val_to_key
  \<close>
  The file system maps the path of a file to its text; a path it does not map does not
  exist. The file is opened in text mode with universal newlines: a line ends at a line
  feed (10), at a carriage return (13) or at the two in a row, and each of these endings
  is read as one line feed. Iterating over the file gives its lines, each with the line
  feed that ends it.
\<close>

type_synonym path = pystr
type_synonym filesystem = "path \<Rightarrow> pystr option"

fun lines_from :: "pystr \<Rightarrow> pystr \<Rightarrow> pystr list" where
  "lines_from cur [] = (if cur = [] then [] else [cur])"
| "lines_from cur (c # s) =
     (if c = 10 then (cur @ [c]) # lines_from [] s else lines_from (cur @ [c]) s)"

fun universal_newlines :: "pystr \<Rightarrow> pystr" where
  "universal_newlines [] = []"
| "universal_newlines [c] = (if c = 13 then [10] else [c])"
| "universal_newlines (c # d # s) =
     (if c = 13 \<and> d = 10 then 10 # universal_newlines s
      else if c = 13 then 10 # universal_newlines (d # s)
      else c # universal_newlines (d # s))"

definition file_lines :: "pystr \<Rightarrow> pystr list" where
  "file_lines content = lines_from [] (universal_newlines content)"

fun parse_lines :: "pystr list \<Rightarrow> dict \<times> dict \<Rightarrow> dict \<times> dict" where
  "parse_lines [] tables = tables"
| "parse_lines (line # ls) (key_to_val, val_to_key) =
     (case match_loc_line line of
        None \<Rightarrow> parse_lines ls (key_to_val, val_to_key)
      | Some (k, v) \<Rightarrow> parse_lines ls (AList.update k v key_to_val, setdefault v k val_to_key))"

definition parse_localizable :: "filesystem \<Rightarrow> path option \<Rightarrow> dict \<times> dict" where
  "parse_localizable fs p =
     (case p of
        None \<Rightarrow> ([], [])
      | Some q \<Rightarrow>
          (case fs q of
             None \<Rightarrow> ([], [])
           | Some content \<Rightarrow> parse_lines (file_lines content) ([], [])))"

section \<open>Literal rewrite engine\<close>

text \<open>
  \<^verbatim>\<open>
  def should_skip_literal(lit: str) -> bool:
      if r"\(" in lit:  # Swift string interpolation
          return True
      if "%@" in lit or "%d" in lit or "%f" in lit:  # printf style
          return True
      return False
  \<close>
\<close>

primrec contains :: "pystr \<Rightarrow> pystr \<Rightarrow> bool" where
  "contains sub [] = (sub = [])"
| "contains sub (c # s) = (starts_with sub (c # s) \<or> contains sub s)"

definition should_skip_literal :: "pystr \<Rightarrow> bool" where
  "should_skip_literal lit =
     (if contains [92, 40] lit then True
      else if contains (py ''%@'') lit \<or> contains (py ''%d'') lit \<or> contains (py ''%f'') lit
        then True
      else False)"

text \<open>
  \<^verbatim>\<open>
  def process_swift(content: str, val_to_key, existing_keys, additions):
      def repl(m: re.Match):
          raw = m.group(1)
          literal = raw.encode('utf-8').decode('unicode_escape')
          if should_skip_literal(literal):
              return m.group(0)  # leave as-is
          # If we already have this value, reuse its key
          key = val_to_key.get(literal)
          if not key:
              base = slugify_key(literal)
              key = generate_unique_key(base, existing_keys)
              existing_keys.add(key)
              additions.setdefault(key, literal)
          # Replace Text("value") -> Text("key".localized)
          return f'Text("{key}".localized)'
      new_content = TEXT_CALL_RE.sub(repl, content)
      return new_content
  \<close>
  \<open>existing_keys\<close> and \<open>additions\<close> are mutated: they are the state that \<open>repl\<close> takes and
  returns. \<open>val_to_key\<close> is only read. \<open>not key\<close> holds for \<open>None\<close> and for the empty string.
\<close>

record run_state =
  existing_keys :: "pystr fset"
  additions :: dict

definition localized_call :: "pystr \<Rightarrow> pystr" where
  "localized_call key = py ''Text(\"'' @ key @ py ''\".localized)''"

definition repl :: "unicode_db \<Rightarrow> dict \<Rightarrow> pystr \<Rightarrow> pystr \<Rightarrow> run_state \<Rightarrow> error + pystr \<times> run_state"
  where
  "repl db val_to_key group0 raw st =
     (case unescape db raw of
        Inl e \<Rightarrow> Inl e
      | Inr literal \<Rightarrow>
          if should_skip_literal literal then Inr (group0, st)
          else
            (case map_of val_to_key literal of
               Some (k # ks) \<Rightarrow> Inr (localized_call (k # ks), st)
             | _ \<Rightarrow>
                 (let base = slugify_key db literal;
                      (key, keys) = generate_unique_key base (existing_keys st);
                      keys = finsert key keys;
                      adds = setdefault key literal (additions st)
                  in Inr (localized_call key, \<lparr> existing_keys = keys, additions = adds \<rparr>))))"

text \<open>
  \<open>TEXT_CALL_RE.sub(repl, content)\<close>: the input is scanned from left to right; where the
  pattern matches, the match is replaced by what \<open>repl\<close> returns and the scan goes on after
  the match; where it does not, the character is copied. A match is never empty.
\<close>

lemma expect_length: "expect c s = Some r \<Longrightarrow> length r < length s"
  by (auto simp: expect_def split: list.splits if_splits)

lemma literal_items_append: "literal_items s = (g, r) \<Longrightarrow> s = g @ r"
  by (induction s arbitrary: g r rule: literal_items.induct)
     (auto split: if_splits list.splits prod.splits)

lemma quoted_group_shape: "quoted_group s = Some (g, r) \<Longrightarrow> s = 34 # g @ 34 # r"
  by (auto simp: quoted_group_def expect_def
      split: option.splits list.splits prod.splits if_splits dest: literal_items_append)

lemma skip_ws_length: "length (skip_ws s) \<le> length s"
  by (simp add: skip_ws_def length_dropWhile_le)

lemma match_text_call_shorter:
  assumes "match_text_call s = Some (m, g, r)"
  shows "length r < length s"
proof -
  from assms obtain s1 where q: "quoted_group (skip_ws (drop 5 s)) = Some (g, s1)"
    and e: "expect 41 (skip_ws s1) = Some r"
    by (auto simp: match_text_call_def split: if_splits option.splits)
  from e have "length r < length (skip_ws s1)" by (rule expect_length)
  also have "\<dots> \<le> length s1" by (rule skip_ws_length)
  also from quoted_group_shape [OF q] have "length s1 \<le> length (skip_ws (drop 5 s))"
    by (metis le_add2 length_Cons length_append nat_le_linear not_less_eq_eq order_trans)
  also have "\<dots> \<le> length (drop 5 s)" by (rule skip_ws_length)
  also have "\<dots> \<le> length s" by simp
  finally show ?thesis .
qed

function re_sub ::
  "unicode_db \<Rightarrow> dict \<Rightarrow> pystr \<Rightarrow> run_state \<Rightarrow> error + pystr \<times> run_state" where
  "re_sub db val_to_key content st =
     (case content of
        [] \<Rightarrow> Inr ([], st)
      | c # s \<Rightarrow>
          (case match_text_call content of
             None \<Rightarrow>
               (case re_sub db val_to_key s st of
                  Inl e \<Rightarrow> Inl e
                | Inr (out, st') \<Rightarrow> Inr (c # out, st'))
           | Some (group0, raw, rest) \<Rightarrow>
               (case repl db val_to_key group0 raw st of
                  Inl e \<Rightarrow> Inl e
                | Inr (new, st1) \<Rightarrow>
                    (case re_sub db val_to_key rest st1 of
                       Inl e \<Rightarrow> Inl e
                     | Inr (out, st') \<Rightarrow> Inr (new @ out, st')))))"
  by pat_completeness auto
termination
proof (relation "measure (\<lambda>(db, val_to_key, content, st). length content)")
  show "wf (measure (\<lambda>(db, val_to_key, content, st). length content))" by simp
next
  fix db :: unicode_db and val_to_key :: dict and content s :: pystr and st :: run_state
    and c :: cp
  assume "content = c # s"
  then show "((db, val_to_key, s, st), (db, val_to_key, content, st))
      \<in> measure (\<lambda>(db, val_to_key, content, st). length content)"
    by simp
next
  fix db :: unicode_db and val_to_key :: dict and content s group0 raw rest new :: pystr
    and st st1 :: run_state and c :: cp
    and x2 :: "pystr \<times> pystr \<times> pystr" and y :: "pystr \<times> pystr"
    and b :: "pystr \<times> run_state"
  assume "match_text_call content = Some x2" "(group0, y) = x2" "(raw, rest) = y"
  then have "match_text_call content = Some (group0, raw, rest)" by simp
  then have "length rest < length content" by (rule match_text_call_shorter)
  then show "((db, val_to_key, rest, st1), (db, val_to_key, content, st))
      \<in> measure (\<lambda>(db, val_to_key, content, st). length content)"
    by simp
qed

declare re_sub.simps [simp del]

definition process_swift ::
  "unicode_db \<Rightarrow> pystr \<Rightarrow> dict \<Rightarrow> run_state \<Rightarrow> error + pystr \<times> run_state" where
  "process_swift db content val_to_key st = re_sub db val_to_key content st"

section \<open>Translation table store: persisting\<close>







section \<open>A text and its rewriting\<close>

text \<open>
  Two notions for reasoning about a second pass over rewritten text. A key is safe to
  write into a call when it reads back as one group of the pattern (as every key parsed
  from a table does) and has no parenthesis. \<open>rewritten s t\<close>: the text \<open>t\<close> is \<open>s\<close> with
  some of its matches replaced by \<open>Text("key".localized)\<close> for safe keys, and everything
  else copied.
\<close>

definition safe_key :: "pystr \<Rightarrow> bool" where
  "safe_key k \<longleftrightarrow> literal_items (k @ [34]) = (k, [34]) \<and> 40 \<notin> set k \<and> 41 \<notin> set k"

inductive rewritten :: "pystr \<Rightarrow> pystr \<Rightarrow> bool" where
  Stop: "rewritten [] []"
| Copy: "rewritten s t \<Longrightarrow> rewritten (c # s) (c # t)"
| Call: "match_text_call (m @ s) = Some (m, g, s) \<Longrightarrow> safe_key k \<Longrightarrow> rewritten s t \<Longrightarrow>
         rewritten (m @ s) (localized_call k @ t)"

section \<open>Properties of the resolver\<close>

lemma loop_free: "key |\<notin>| ks \<Longrightarrow> unique_key_loop base ks key i = key"
  by (subst unique_key_loop.simps) simp

lemma loop_taken:
  "key |\<in>| ks \<Longrightarrow> unique_key_loop base ks key i = unique_key_loop base ks (suffixed base i) (i + 1)"
  by (subst unique_key_loop.simps) simp

lemma loop_result_fresh: "unique_key_loop base ks key i |\<notin>| ks"
  by (induction base ks key i rule: unique_key_loop.induct)
     (metis loop_free loop_taken)

lemma loop_first_free:
  "key |\<in>| ks \<Longrightarrow>
   \<exists>n\<ge>i. unique_key_loop base ks key i = suffixed base n \<and> suffixed base n |\<notin>| ks \<and>
          (\<forall>j. i \<le> j \<and> j < n \<longrightarrow> suffixed base j |\<in>| ks)"
proof (induction base ks key i rule: unique_key_loop.induct)
  case (1 base ks key i)
  show ?case
  proof (cases "suffixed base i |\<in>| ks")
    case True
    from "1.IH" [OF "1.prems" True] obtain n where n: "i + 1 \<le> n"
      "unique_key_loop base ks (suffixed base i) (i + 1) = suffixed base n"
      "suffixed base n |\<notin>| ks"
      "\<forall>j. i + 1 \<le> j \<and> j < n \<longrightarrow> suffixed base j |\<in>| ks"
      by blast
    have "\<forall>j. i \<le> j \<and> j < n \<longrightarrow> suffixed base j |\<in>| ks"
    proof (intro allI impI)
      fix j assume j: "i \<le> j \<and> j < n"
      show "suffixed base j |\<in>| ks"
      proof (cases "j = i")
        case True
        with \<open>suffixed base i |\<in>| ks\<close> show ?thesis by simp
      next
        case False
        with j n(4) show ?thesis by simp
      qed
    qed
    with n "1.prems" show ?thesis
      by (intro exI [of _ n]) (simp add: loop_taken)
  next
    case False
    with "1.prems" show ?thesis
      by (intro exI [of _ i]) (auto simp: loop_taken loop_free)
  qed
qed

text \<open>
  Claim C10. For every base string and every finite set of existing keys,
  \<open>generate_unique_key\<close> terminates (the loop is a total function: its termination is
  proved above for every finite set, by the number of suffixes still taken) and the key
  it returns is not in the given set.
\<close>

theorem generate_unique_key_fresh:
  "fst (generate_unique_key base keys) |\<notin>| keys"
  by (simp add: generate_unique_key_def loop_result_fresh)

text \<open>
  Claim C3. \<open>generate_unique_key\<close> returns the base unchanged when the base is not in the
  set; otherwise it returns \<open>base.n\<close> for the first \<open>n\<close> among 2, 3, ... whose \<open>base.n\<close>
  is not in the set; and the set of existing keys is left as it was.
\<close>

theorem generate_unique_key_first_free:
  "(base |\<notin>| keys \<longrightarrow> fst (generate_unique_key base keys) = base) \<and>
   (base |\<in>| keys \<longrightarrow>
      (\<exists>n\<ge>2. fst (generate_unique_key base keys) = suffixed base n \<and>
             suffixed base n |\<notin>| keys \<and>
             (\<forall>j. 2 \<le> j \<and> j < n \<longrightarrow> suffixed base j |\<in>| keys))) \<and>
   snd (generate_unique_key base keys) = keys"
  using loop_first_free [of base keys 2 base]
  by (simp add: generate_unique_key_def loop_free)

theorem generate_unique_key_first_free_witness:
  "py ''greeting'' |\<notin>| {||} \<and>
   generate_unique_key (py ''greeting'') {||} = (py ''greeting'', {||}) \<and>
   py ''greeting'' |\<in>| {|py ''greeting''|} \<and>
   generate_unique_key (py ''greeting'') {|py ''greeting''|} =
     (py ''greeting.2'', {|py ''greeting''|})"
proof -
  let ?b = "py ''greeting''"
  have taken: "?b |\<in>| {|?b|}" by simp
  have free2: "suffixed ?b 2 |\<notin>| {|?b|}" by (simp add: suffixed_def)
  from generate_unique_key_first_free [of ?b "{||}"]
  have none: "generate_unique_key ?b {||} = (?b, {||})"
    by (simp add: prod_eq_iff)
  from generate_unique_key_first_free [of ?b "{|?b|}"] taken
  obtain n where n: "2 \<le> n" "fst (generate_unique_key ?b {|?b|}) = suffixed ?b n"
    "\<forall>j. 2 \<le> j \<and> j < n \<longrightarrow> suffixed ?b j |\<in>| {|?b|}"
    and same: "snd (generate_unique_key ?b {|?b|}) = {|?b|}"
    by blast
  have "n = 2"
  proof (rule ccontr)
    assume "n \<noteq> 2"
    with n(1) have "2 \<le> (2::nat) \<and> 2 < n" by simp
    with n(3) have "suffixed ?b 2 |\<in>| {|?b|}" by blast
    with free2 show False by simp
  qed
  moreover have "suffixed ?b 2 = py ''greeting.2''"
    by (simp add: suffixed_def py_def str_of_nat_small)
  ultimately have "generate_unique_key ?b {|?b|} = (py ''greeting.2'', {|?b|})"
    using n(2) same by (simp add: prod_eq_iff)
  with none show ?thesis by simp
qed

section \<open>Properties of the slugifier\<close>


lemma strip_chars_length: "length (strip_chars P s) \<le> length s"
  unfolding strip_chars_def
  by (metis length_dropWhile_le length_rev order_trans)

lemma strip_chars_last: "strip_chars P s \<noteq> [] \<Longrightarrow> \<not> P (last (strip_chars P s))"
  unfolding strip_chars_def
  by (simp add: last_rev hd_dropWhile)

lemma strip_chars_keep:
  assumes "s \<noteq> []" "\<not> P (hd s)"
  shows "strip_chars P s \<noteq> []"
proof -
  from assms have d: "dropWhile P s = s" by (cases s) simp_all
  from assms have "hd s \<in> set (rev s)" by simp
  with assms(2) have "\<not> (\<forall>x\<in>set (rev s). P x)" by blast
  then have "dropWhile P (rev s) \<noteq> []" by (simp add: dropWhile_eq_Nil_conv)
  with d show ?thesis by (simp add: strip_chars_def)
qed

lemma strip_chars_hd: "strip_chars P s \<noteq> [] \<Longrightarrow> \<not> P (hd (strip_chars P s))"
proof -
  assume ne: "strip_chars P s \<noteq> []"
  let ?t = "dropWhile P s"
  from ne have tne: "?t \<noteq> []"
    by (cases "dropWhile P s = []") (simp_all add: strip_chars_def)
  then have nP: "\<not> P (hd ?t)" by (rule hd_dropWhile)
  obtain a where a: "rev ?t = a @ dropWhile P (rev ?t)"
    by (metis takeWhile_dropWhile_id)
  then have "?t = rev (dropWhile P (rev ?t)) @ rev a"
    by (metis rev_append rev_rev_ident)
  then have "?t = strip_chars P s @ rev a" by (simp add: strip_chars_def)
  with ne have "hd ?t = hd (strip_chars P s)" by (metis hd_append2)
  with nP show ?thesis by simp
qed

lemma slug_uncapped_nonempty: "slug_uncapped db s \<noteq> []"
  by (simp add: slug_uncapped_def Let_def py_def)

lemma slug_uncapped_hd: "hd (slug_uncapped db s) \<noteq> 46"
  using strip_chars_hd [of "\<lambda>c. c = 46"]
  by (simp add: slug_uncapped_def Let_def py_def strip_dots_def)

lemma slug_uncapped_last: "last (slug_uncapped db s) \<noteq> 46"
  using strip_chars_last [of "\<lambda>c. c = 46"]
  by (simp add: slug_uncapped_def Let_def py_def strip_dots_def)

lemma slugify_key_nonempty: "slugify_key db s \<noteq> []"
proof -
  let ?k = "slug_uncapped db s"
  have "take 60 ?k \<noteq> []" using slug_uncapped_nonempty [of db s] by simp
  moreover have "hd (take 60 ?k) \<noteq> 46"
    using slug_uncapped_hd [of db s] slug_uncapped_nonempty [of db s]
    by (cases ?k) simp_all
  ultimately have "strip_dots (take 60 ?k) \<noteq> []"
    unfolding strip_dots_def by (intro strip_chars_keep) simp_all
  then show ?thesis
    by (simp add: slugify_key_def Let_def slug_uncapped_nonempty)
qed

lemma slugify_key_last: "last (slugify_key db s) \<noteq> 46"
proof (cases "60 < length (slug_uncapped db s)")
  case True
  then have eq: "slugify_key db s = strip_dots (take 60 (slug_uncapped db s))"
    by (simp add: slugify_key_def Let_def)
  with slugify_key_nonempty [of db s] show ?thesis
    using strip_chars_last [of "\<lambda>c. c = 46" "take 60 (slug_uncapped db s)"]
    by (simp add: strip_dots_def)
next
  case False
  then show ?thesis
    by (simp add: slugify_key_def Let_def slug_uncapped_last)
qed

lemma slugify_key_length: "length (slugify_key db s) \<le> 60"
proof (cases "60 < length (slug_uncapped db s)")
  case True
  then have "slugify_key db s = strip_dots (take 60 (slug_uncapped db s))"
    by (simp add: slugify_key_def Let_def)
  moreover have "length (strip_dots (take 60 (slug_uncapped db s))) \<le> length (take 60 (slug_uncapped db s))"
    unfolding strip_dots_def by (rule strip_chars_length)
  ultimately show ?thesis by simp
next
  case False
  then show ?thesis by (simp add: slugify_key_def Let_def)
qed

lemma conformant_isalnum: "ascii_conformant db \<Longrightarrow> c < 128 \<Longrightarrow> isalnum db c = ascii_isalnum c"
  by (simp add: ascii_conformant_def)

lemma conformant_lower: "ascii_conformant db \<Longrightarrow> is_ascii s \<Longrightarrow> lower db s = map ascii_lower s"
  by (simp add: ascii_conformant_def)

lemma conformant_NFKD: "ascii_conformant db \<Longrightarrow> is_ascii s \<Longrightarrow> normalize_NFKD db s = s"
  by (simp add: ascii_conformant_def)

lemma slugify_example:
  assumes "ascii_conformant db"
  shows "slugify_key db (py ''Example Text!'') = py ''example.text''"
  using assms
  by (simp add: slugify_key_def slug_uncapped_def py_strip_def strip_dots_def strip_chars_def
      py_def conformant_lower conformant_NFKD conformant_isalnum is_ascii_def
      ascii_isalnum_def ascii_lower_def py_isspace_def)

lemma slugify_empty:
  assumes "ascii_conformant db"
  shows "slugify_key db [] = py ''text''"
  using assms
  by (simp add: slugify_key_def slug_uncapped_def py_strip_def strip_dots_def strip_chars_def
      py_def conformant_lower conformant_NFKD is_ascii_def)

lemma ucd_excerpt_conformant: "ascii_conformant ucd_excerpt"
proof -
  have "map excerpt_lower s = map ascii_lower s" if "is_ascii s" for s
    using that by (induction s) (auto simp: is_ascii_def excerpt_lower_def ascii_lower_def)
  moreover have "excerpt_isalnum c = ascii_isalnum c" if "c < 128" for c
    using that by (auto simp: excerpt_isalnum_def)
  ultimately show ?thesis
    by (simp add: ascii_conformant_def ucd_excerpt_def)
qed






lemma strip_chars_id: "s \<noteq> [] \<Longrightarrow> \<not> P (hd s) \<Longrightarrow> \<not> P (last s) \<Longrightarrow> strip_chars P s = s"
proof -
  assume a: "s \<noteq> []" "\<not> P (hd s)" "\<not> P (last s)"
  then have d: "dropWhile P s = s" by (cases s) simp_all
  from a have "rev s \<noteq> []" "\<not> P (hd (rev s))" by (simp_all add: hd_rev)
  then have "dropWhile P (rev s) = rev s" by (cases "rev s") simp_all
  with d show ?thesis by (simp add: strip_chars_def)
qed

lemma strip_chars_snoc:
  "s \<noteq> [] \<Longrightarrow> \<not> P (hd s) \<Longrightarrow> P c \<Longrightarrow> strip_chars P (s @ [c]) = strip_chars P s"
proof -
  assume a: "s \<noteq> []" "\<not> P (hd s)" "P c"
  then have "dropWhile P s = s" "dropWhile P (s @ [c]) = s @ [c]" by (cases s; simp)+
  with a show ?thesis by (simp add: strip_chars_def)
qed

lemma slug_loop_alnum_run:
  "\<forall>c\<in>set xs. isalnum db c \<Longrightarrow> xs \<noteq> [] \<Longrightarrow>
   slug_loop db (xs @ s) out pd = slug_loop db s (out @ xs) False"
proof (induction xs arbitrary: out pd)
  case Nil
  then show ?case by simp
next
  case (Cons x xs)
  then show ?case by (cases "xs = []") simp_all
qed

lemma long_key_uncapped:
  "slug_uncapped ucd_excerpt (replicate 59 97 @ py ''!!b'') = replicate 59 97 @ py ''.b''"
proof -
  let ?a = "replicate 59 (97::nat)"
  have hd_a: "hd (?a @ t) = 97" "?a @ t \<noteq> []" for t by simp_all
  have "py_strip (?a @ py ''!!b'') = ?a @ py ''!!b''"
    unfolding py_strip_def
    by (rule strip_chars_id) (simp_all add: py_def py_isspace_def)
  moreover have "map excerpt_lower (?a @ py ''!!b'') = ?a @ py ''!!b''"
    by (simp add: py_def excerpt_lower_def)
  moreover have "slug_loop ucd_excerpt (?a @ py ''!!b'') [] False = ?a @ py ''.b''"
    by (subst slug_loop_alnum_run)
       (simp_all add: ucd_excerpt_def excerpt_isalnum_def ascii_isalnum_def py_def)
  moreover have "strip_dots (?a @ py ''.b'') = ?a @ py ''.b''"
    unfolding strip_dots_def
    by (rule strip_chars_id) (simp_all add: py_def)
  ultimately show ?thesis
    by (simp add: slug_uncapped_def ucd_excerpt_def)
qed

lemma long_key_capped:
  "slugify_key ucd_excerpt (replicate 59 97 @ py ''!!b'') = replicate 59 97"
proof -
  let ?a = "replicate 59 (97::nat)"
  have "strip_dots (?a @ [46]) = strip_dots ?a"
    unfolding strip_dots_def by (rule strip_chars_snoc) simp_all
  also have "\<dots> = ?a"
    unfolding strip_dots_def by (rule strip_chars_id) (simp_all add: last_replicate)
  finally have "strip_dots (?a @ [46]) = ?a" .
  then show ?thesis
    unfolding slugify_key_def long_key_uncapped Let_def by (simp add: py_def)
qed

text \<open>
  Claim C8. Slugify is a function of its input (and of the Unicode tables). With tables
  that say about ASCII what Unicode says, \<open>slugify("Example Text!")\<close> is
  \<open>"example.text"\<close> and \<open>slugify("")\<close> is the fallback \<open>"text"\<close>. For every input whose key
  before the cap is longer than 60 characters, the result has at most 60 characters, is
  not empty and does not end with the separator \<open>"."\<close>.
\<close>

theorem slugify_key_examples_and_cap:
  "(ascii_conformant db \<longrightarrow>
      slugify_key db (py ''Example Text!'') = py ''example.text'' \<and>
      slugify_key db [] = py ''text'') \<and>
   (60 < length (slug_uncapped db s) \<longrightarrow>
      length (slugify_key db s) \<le> 60 \<and> slugify_key db s \<noteq> [] \<and>
      last (slugify_key db s) \<noteq> 46)"
  by (simp add: slugify_example slugify_empty slugify_key_length slugify_key_nonempty
      slugify_key_last)

theorem slugify_key_examples_and_cap_witness:
  "ascii_conformant ucd_excerpt \<and>
   60 < length (slug_uncapped ucd_excerpt (replicate 59 97 @ py ''!!b'')) \<and>
   slugify_key ucd_excerpt (py ''Example Text!'') = py ''example.text'' \<and>
   slugify_key ucd_excerpt [] = py ''text'' \<and>
   slugify_key ucd_excerpt (replicate 59 97 @ py ''!!b'') = replicate 59 97 \<and>
   length (slugify_key ucd_excerpt (replicate 59 97 @ py ''!!b'')) \<le> 60 \<and>
   last (slugify_key ucd_excerpt (replicate 59 97 @ py ''!!b'')) \<noteq> 46"
proof -
  let ?s = "replicate 59 97 @ py ''!!b''"
  have long: "60 < length (slug_uncapped ucd_excerpt ?s)"
    unfolding long_key_uncapped by (simp add: py_def)
  have val: "slugify_key ucd_excerpt ?s = replicate 59 97" by (rule long_key_capped)
  from slugify_key_examples_and_cap [of ucd_excerpt ?s] ucd_excerpt_conformant long val
  show ?thesis by simp
qed




section \<open>Properties of the rewrite engine\<close>

lemmas eval_defs = process_swift_def re_sub.simps match_text_call_def quoted_group_def expect_def
  skip_ws_def localized_ahead_def py_def py_isspace_def repl_def unescape_def
  unicode_escape_decode.simps escape_step_def utf8_encode_cp_def should_skip_literal_def
  slugify_key_def slug_uncapped_def py_strip_def strip_dots_def strip_chars_def
  ucd_excerpt_def excerpt_isalnum_def excerpt_lower_def ascii_isalnum_def
  generate_unique_key_def unique_key_loop.simps suffixed_def str_of_nat.simps
  setdefault_def localized_call_def is_octal_def Let_def
  parse_localizable_def file_lines_def match_loc_line_def

lemma starts_with_iff: "starts_with p s \<longleftrightarrow> (\<exists>t. s = p @ t)"
  by (induction p s rule: starts_with.induct) auto

lemma skip_ws_suffix: "\<exists>ws. s = ws @ skip_ws s \<and> list_all py_isspace ws"
  unfolding skip_ws_def
  by (rule exI [of _ "takeWhile py_isspace s"]) (auto simp: list_all_iff dest: set_takeWhileD)

lemma take_prefix_of_append: "s = m @ r \<Longrightarrow> take (length s - length r) s = m"
  by simp

lemma match_text_call_shape:
  assumes "match_text_call s = Some (m, g, r)"
  shows "\<exists>ws1 ws2. s = py ''Text('' @ ws1 @ 34 # g @ 34 # ws2 @ 41 # r \<and>
           m = py ''Text('' @ ws1 @ 34 # g @ 34 # ws2 @ [41] \<and>
           list_all py_isspace ws1 \<and> list_all py_isspace ws2 \<and> g \<noteq> [] \<and>
           \<not> localized_ahead r"
proof -
  from assms have sw: "starts_with (py ''Text('') s"
    by (simp add: match_text_call_def split: if_splits)
  then obtain t where t: "s = py ''Text('' @ t" by (auto simp: starts_with_iff)
  then have d5: "drop 5 s = t" by (simp add: py_def)
  from assms sw have "\<exists>s1. quoted_group (skip_ws (drop 5 s)) = Some (g, s1) \<and>
      expect 41 (skip_ws s1) = Some r \<and> \<not> localized_ahead r \<and>
      m = take (length s - length r) s"
    by (auto simp: match_text_call_def split: if_splits option.splits)
  then obtain s1 where q: "quoted_group (skip_ws t) = Some (g, s1)"
    and e: "expect 41 (skip_ws s1) = Some r" and la: "\<not> localized_ahead r"
    and m: "m = take (length s - length r) s"
    unfolding d5 by blast
  obtain ws1 where ws1: "t = ws1 @ skip_ws t" "list_all py_isspace ws1"
    using skip_ws_suffix by blast
  obtain ws2 where ws2: "s1 = ws2 @ skip_ws s1" "list_all py_isspace ws2"
    using skip_ws_suffix by blast
  from e have r: "skip_ws s1 = 41 # r"
    by (auto simp: expect_def split: list.splits if_splits)
  from q have g: "g \<noteq> []"
    by (auto simp: quoted_group_def split: option.splits prod.splits if_splits)
  from quoted_group_shape [OF q] have qs: "skip_ws t = 34 # g @ 34 # s1" .
  have "s1 = ws2 @ 41 # r" by (subst ws2(1)) (simp only: r)
  then have "skip_ws t = 34 # g @ 34 # ws2 @ 41 # r" using qs by simp
  then have "t = ws1 @ 34 # g @ 34 # ws2 @ 41 # r" by (subst ws1(1)) (simp only:)
  with t have s: "s = (py ''Text('' @ ws1 @ 34 # g @ 34 # ws2 @ [41]) @ r" by simp
  from take_prefix_of_append [OF s] m
  have "m = py ''Text('' @ ws1 @ 34 # g @ 34 # ws2 @ [41]" by simp
  moreover from s have "s = py ''Text('' @ ws1 @ 34 # g @ 34 # ws2 @ 41 # r" by simp
  ultimately show ?thesis using ws1(2) ws2(2) g la by blast
qed

lemma match_text_call_split: "match_text_call s = Some (m, g, r) \<Longrightarrow> s = m @ r"
  by (drule match_text_call_shape) auto

lemma re_sub_Nil: "re_sub db v [] st = Inr ([], st)"
  by (subst re_sub.simps) simp

lemma re_sub_copy:
  "match_text_call (c # s) = None \<Longrightarrow>
   re_sub db v (c # s) st =
     (case re_sub db v s st of Inl e \<Rightarrow> Inl e | Inr (out, st') \<Rightarrow> Inr (c # out, st'))"
  by (subst re_sub.simps) simp

lemma re_sub_call:
  "match_text_call content = Some (group0, raw, rest) \<Longrightarrow>
   re_sub db v content st =
     (case repl db v group0 raw st of
        Inl e \<Rightarrow> Inl e
      | Inr (new, st1) \<Rightarrow>
          (case re_sub db v rest st1 of
             Inl e \<Rightarrow> Inl e
           | Inr (out, st') \<Rightarrow> Inr (new @ out, st')))"
  by (subst re_sub.simps) (auto simp: match_text_call_def py_def split: list.splits)

lemma match_loc_line_nonempty: "match_loc_line l = Some (k, v) \<Longrightarrow> k \<noteq> [] \<and> v \<noteq> []"
  by (auto simp: match_loc_line_def quoted_group_def
      split: option.splits prod.splits if_splits)

lemma map_of_setdefault: "map_of (setdefault k v d) = map_of (d @ [(k, v)])"
  by (auto simp: setdefault_def map_add_def fun_eq_iff split: option.splits)

lemma parse_lines_keys_nonempty:
  "\<forall>v k. map_of b v = Some k \<longrightarrow> k \<noteq> [] \<Longrightarrow>
   map_of (snd (parse_lines ls (a, b))) v = Some k \<Longrightarrow> k \<noteq> []"
proof (induction ls arbitrary: a b)
  case Nil
  then show ?case by simp
next
  case (Cons l ls)
  show ?case
  proof (cases "match_loc_line l")
    case None
    with Cons show ?thesis by simp
  next
    case (Some kv)
    obtain k' v' where kv: "kv = (k', v')" by (cases kv)
    with Some have ne: "k' \<noteq> []" by (auto dest: match_loc_line_nonempty)
    have inv: "\<forall>v k. map_of (setdefault v' k' b) v = Some k \<longrightarrow> k \<noteq> []"
      using Cons.prems(1) ne
      by (auto simp: map_of_setdefault map_add_def split: option.splits if_splits)
    from Cons.prems(2) Some kv
    have "map_of (snd (parse_lines ls (AList.update k' v' a, setdefault v' k' b))) v = Some k"
      by simp
    from Cons.IH [OF inv this] show ?thesis .
  qed
qed

lemma parse_localizable_keys_nonempty:
  "map_of (snd (parse_localizable fs p)) v = Some k \<Longrightarrow> k \<noteq> []"
  using parse_lines_keys_nonempty [of "[]" _ "[]" v k]
  by (auto simp: parse_localizable_def split: option.splits)

text \<open>
  Claim C1 does not hold of the code. With an empty table, the source text
  \<open>Text("Save") Text("Save") Text("Cancel")\<close> gets three new keys: the second \<open>"Save"\<close> is
  not found in \<open>val_to_key\<close> (which \<open>repl\<close> never extends), its base \<open>save\<close> is by then in
  \<open>existing_keys\<close>, and the resolver returns \<open>save.2\<close>. The additions end with three
  entries.
\<close>

theorem process_swift_save_save_cancel:
  "process_swift ucd_excerpt (py ''Text(\"Save\") Text(\"Save\") Text(\"Cancel\")'') []
     \<lparr> existing_keys = {||}, additions = [] \<rparr> =
   Inr (py ''Text(\"save\".localized) Text(\"save.2\".localized) Text(\"cancel\".localized)'',
        \<lparr> existing_keys = {|py ''cancel'', py ''save.2'', py ''save''|},
          additions = [(py ''save'', py ''Save''), (py ''save.2'', py ''Save''),
                       (py ''cancel'', py ''Cancel'')] \<rparr>)"
  by (simp add: eval_defs)

text \<open>
  Claim C4, as stated, fails: \<open>repl\<close> tests \<open>should_skip_literal\<close> before it looks the
  value up. With the table \<open>"score" = "Score: %d";\<close> the value-to-key map holds the
  decoded value of \<open>Text("Score: %d")\<close>, and the occurrence is left as it is: the key
  \<open>score\<close> is not used.
\<close>

theorem skip_wins_over_reuse:
  "map_of (snd (parse_localizable
      [py ''L.strings'' \<mapsto> py ''\"score\" = \"Score: %d\";'' @ [10]]
      (Some (py ''L.strings'')))) (py ''Score: %d'') = Some (py ''score'') \<and>
   match_text_call (py ''Text(\"Score: %d\")'') =
     Some (py ''Text(\"Score: %d\")'', py ''Score: %d'', []) \<and>
   unescape ucd_excerpt (py ''Score: %d'') = Inr (py ''Score: %d'') \<and>
   process_swift ucd_excerpt (py ''Text(\"Score: %d\")'')
     (snd (parse_localizable
        [py ''L.strings'' \<mapsto> py ''\"score\" = \"Score: %d\";'' @ [10]]
        (Some (py ''L.strings''))))
     \<lparr> existing_keys = {|py ''score''|}, additions = [] \<rparr> =
     Inr (py ''Text(\"Score: %d\")'', \<lparr> existing_keys = {|py ''score''|}, additions = [] \<rparr>) \<and>
   py ''Text(\"Score: %d\")'' \<noteq> py ''Text(\"score\".localized)''"
  by (simp add: eval_defs)

text \<open>
  Claim C4, amended. When the value-to-key map parsed from the existing table holds the
  decoded value of a matched literal and the value is not one the engine skips (it has
  neither the interpolation marker nor \<open>%@\<close>, \<open>%d\<close>, \<open>%f\<close>), the occurrence is
  replaced by \<open>Text("key".localized)\<close> with the key the map gives, and the scan goes on
  after the occurrence with the state it had: no key is minted, nothing is added to the
  pending additions. With the table \<open>"hello" = "Hi there";\<close>, \<open>Text("Hi there")\<close> becomes
  \<open>Text("hello".localized)\<close> (the witness).
\<close>

theorem reuse_existing_key:
  assumes "match_text_call content = Some (group0, raw, rest)"
    and "unescape db raw = Inr literal"
    and "\<not> should_skip_literal literal"
    and "map_of (snd (parse_localizable fs p)) literal = Some key"
  shows "process_swift db content (snd (parse_localizable fs p)) st =
     (case process_swift db rest (snd (parse_localizable fs p)) st of
        Inl e \<Rightarrow> Inl e
      | Inr (out, st') \<Rightarrow> Inr (py ''Text(\"'' @ key @ py ''\".localized)'' @ out, st'))"
proof -
  from parse_localizable_keys_nonempty [OF assms(4)] obtain k ks where "key = k # ks"
    by (cases key) auto
  with assms(2-4) have "repl db (snd (parse_localizable fs p)) group0 raw st =
      Inr (localized_call key, st)"
    by (simp add: repl_def)
  with re_sub_call [OF assms(1), of db "snd (parse_localizable fs p)" st] show ?thesis
    by (auto simp: process_swift_def localized_call_def split: sum.splits)
qed

theorem reuse_existing_key_witness:
  "match_text_call (py ''Text(\"Hi there\")'') =
     Some (py ''Text(\"Hi there\")'', py ''Hi there'', []) \<and>
   unescape ucd_excerpt (py ''Hi there'') = Inr (py ''Hi there'') \<and>
   \<not> should_skip_literal (py ''Hi there'') \<and>
   parse_localizable [py ''Localizable.strings'' \<mapsto> py ''\"hello\" = \"Hi there\";'' @ [10]]
     (Some (py ''Localizable.strings'')) =
     ([(py ''hello'', py ''Hi there'')], [(py ''Hi there'', py ''hello'')]) \<and>
   process_swift ucd_excerpt (py ''Text(\"Hi there\")'')
     (snd (parse_localizable
        [py ''Localizable.strings'' \<mapsto> py ''\"hello\" = \"Hi there\";'' @ [10]]
        (Some (py ''Localizable.strings''))))
     \<lparr> existing_keys = {|py ''hello''|}, additions = [] \<rparr> =
   Inr (py ''Text(\"hello\".localized)'', \<lparr> existing_keys = {|py ''hello''|}, additions = [] \<rparr>)"
proof -
  let ?fs = "[py ''Localizable.strings'' \<mapsto> py ''\"hello\" = \"Hi there\";'' @ [10]]"
  let ?p = "Some (py ''Localizable.strings'')"
  let ?st = "\<lparr> existing_keys = {|py ''hello''|}, additions = [] \<rparr>"
  have m: "match_text_call (py ''Text(\"Hi there\")'') =
      Some (py ''Text(\"Hi there\")'', py ''Hi there'', [])"
    by (simp add: eval_defs)
  have u: "unescape ucd_excerpt (py ''Hi there'') = Inr (py ''Hi there'')"
    by (simp add: eval_defs)
  have k: "\<not> should_skip_literal (py ''Hi there'')"
    by (simp add: eval_defs)
  have t: "parse_localizable ?fs ?p =
      ([(py ''hello'', py ''Hi there'')], [(py ''Hi there'', py ''hello'')])"
    by (simp add: eval_defs)
  then have l: "map_of (snd (parse_localizable ?fs ?p)) (py ''Hi there'') = Some (py ''hello'')"
    by simp
  have r: "process_swift ucd_excerpt [] (snd (parse_localizable ?fs ?p)) ?st = Inr ([], ?st)"
    by (simp add: process_swift_def re_sub_Nil)
  from reuse_existing_key [OF m u k l, of ?st]
  have "process_swift ucd_excerpt (py ''Text(\"Hi there\")'') (snd (parse_localizable ?fs ?p)) ?st =
      Inr (py ''Text(\"hello\".localized)'', ?st)"
    unfolding r by (simp add: py_def)
  with m u k t show ?thesis by simp
qed

text \<open>
  Claim C5. When the decoded value of a matched literal contains the interpolation marker
  (a backslash and an opening parenthesis) or one of \<open>%@\<close>, \<open>%d\<close>, \<open>%f\<close>, the occurrence
  \<open>group0\<close> stands in the output as it stood in the input, and the scan goes on after it
  with the state it had: the key set and the pending additions are as before (the reuse
  map is never written by the engine).
\<close>

theorem skip_interpolated_literal:
  assumes "match_text_call content = Some (group0, raw, rest)"
    and "unescape db raw = Inr literal"
    and "contains [92, 40] literal \<or> contains (py ''%@'') literal \<or>
         contains (py ''%d'') literal \<or> contains (py ''%f'') literal"
  shows "content = group0 @ rest \<and>
     process_swift db content val_to_key st =
       (case process_swift db rest val_to_key st of
          Inl e \<Rightarrow> Inl e
        | Inr (out, st') \<Rightarrow> Inr (group0 @ out, st'))"
proof -
  from assms(3) have "should_skip_literal literal"
    by (auto simp: should_skip_literal_def)
  with assms(2) have "repl db val_to_key group0 raw st = Inr (group0, st)"
    by (simp add: repl_def)
  with re_sub_call [OF assms(1), of db val_to_key st] match_text_call_split [OF assms(1)]
  show ?thesis
    by (simp add: process_swift_def)
qed

theorem skip_interpolated_literal_witness:
  "process_swift ucd_excerpt (py ''Text(\"Welcome, '' @ [92] @ py ''(name)\") Text(\"Score: %d\")'') []
     \<lparr> existing_keys = {||}, additions = [] \<rparr> =
   Inr (py ''Text(\"Welcome, '' @ [92] @ py ''(name)\") Text(\"Score: %d\")'',
        \<lparr> existing_keys = {||}, additions = [] \<rparr>)"
proof -
  let ?st = "\<lparr> existing_keys = {||}, additions = [] \<rparr>"
  let ?w = "py ''Text(\"Welcome, '' @ [92] @ py ''(name)\")''"
  let ?lit = "py ''Welcome, '' @ [92] @ py ''(name)''"
  let ?c = "py ''Text(\"Score: %d\")''"
  have m1: "match_text_call (?w @ 32 # ?c) = Some (?w, ?lit, 32 # ?c)"
    by (simp add: eval_defs)
  have u1: "unescape ucd_excerpt ?lit = Inr ?lit"
    by (simp add: eval_defs)
  have c1: "contains [92, 40] ?lit \<or> contains (py ''%@'') ?lit \<or>
      contains (py ''%d'') ?lit \<or> contains (py ''%f'') ?lit"
    by (simp add: py_def)
  have m2: "match_text_call ?c = Some (?c, py ''Score: %d'', [])"
    by (simp add: eval_defs)
  have u2: "unescape ucd_excerpt (py ''Score: %d'') = Inr (py ''Score: %d'')"
    by (simp add: eval_defs)
  have c2: "contains [92, 40] (py ''Score: %d'') \<or> contains (py ''%@'') (py ''Score: %d'') \<or>
      contains (py ''%d'') (py ''Score: %d'') \<or> contains (py ''%f'') (py ''Score: %d'')"
    by (simp add: py_def)
  have e: "process_swift ucd_excerpt [] [] ?st = Inr ([], ?st)"
    by (simp add: process_swift_def re_sub_Nil)
  from skip_interpolated_literal [OF m2 u2 c2, of "[]" ?st]
  have p2: "process_swift ucd_excerpt ?c [] ?st = Inr (?c, ?st)"
    unfolding e by simp
  have sp: "match_text_call (32 # ?c) = None"
    by (simp add: eval_defs)
  have p3: "process_swift ucd_excerpt (32 # ?c) [] ?st = Inr (32 # ?c, ?st)"
    using re_sub_copy [OF sp, of ucd_excerpt "[]" ?st] p2
    by (simp add: process_swift_def)
  from skip_interpolated_literal [OF m1 u1 c1, of "[]" ?st]
  have "process_swift ucd_excerpt (?w @ 32 # ?c) [] ?st = Inr (?w @ 32 # ?c, ?st)"
    unfolding p3 by simp
  then show ?thesis by (simp add: py_def)
qed

section \<open>Properties of parsing\<close>

lemma parse_lines_filter:
  "parse_lines ls t = parse_lines (filter (\<lambda>l. match_loc_line l \<noteq> None) ls) t"
proof (induction ls arbitrary: t)
  case Nil
  show ?case by simp
next
  case (Cons l ls)
  obtain a b where t: "t = (a, b)" by (cases t)
  show ?case
  proof (cases "match_loc_line l")
    case None
    with Cons [of "(a, b)"] t show ?thesis by simp
  next
    case (Some kv)
    obtain k v where "kv = (k, v)" by (cases kv)
    with Some Cons [of "(AList.update k v a, setdefault v k b)"] t show ?thesis by simp
  qed
qed

lemma parse_lines_key_to_val:
  "map_of (fst (parse_lines ls (a, b))) = map_of (rev (List.map_filter match_loc_line ls) @ a)"
proof (induction ls arbitrary: a b)
  case Nil
  show ?case by (simp add: List.map_filter_simps)
next
  case (Cons l ls)
  show ?case
  proof (cases "match_loc_line l")
    case None
    with Cons [of a b] show ?thesis by (simp add: List.map_filter_simps)
  next
    case (Some kv)
    obtain k v where kv: "kv = (k, v)" by (cases kv)
    have "map_of (fst (parse_lines (l # ls) (a, b))) =
        map_of (rev (List.map_filter match_loc_line ls) @ AList.update k v a)"
      using Some kv Cons [of "AList.update k v a" "setdefault v k b"] by simp
    also have "\<dots> = map_of (rev (List.map_filter match_loc_line ls) @ (k, v) # a)"
      by (simp add: update_conv')
    finally show ?thesis using Some kv by (simp add: List.map_filter_simps)
  qed
qed

lemma parse_lines_val_to_key:
  "map_of (snd (parse_lines ls (a, b))) =
     map_of (b @ map (\<lambda>(k, v). (v, k)) (List.map_filter match_loc_line ls))"
proof (induction ls arbitrary: a b)
  case Nil
  show ?case by (simp add: List.map_filter_simps)
next
  case (Cons l ls)
  show ?case
  proof (cases "match_loc_line l")
    case None
    with Cons [of a b] show ?thesis by (simp add: List.map_filter_simps)
  next
    case (Some kv)
    obtain k v where kv: "kv = (k, v)" by (cases kv)
    have "map_of (snd (parse_lines (l # ls) (a, b))) =
        map_of (setdefault v k b @ map (\<lambda>(k, v). (v, k)) (List.map_filter match_loc_line ls))"
      using Some kv Cons [of "AList.update k v a" "setdefault v k b"] by simp
    also have "\<dots> = map_of ((b @ [(v, k)]) @ map (\<lambda>(k, v). (v, k)) (List.map_filter match_loc_line ls))"
      unfolding map_of_append map_of_setdefault ..
    finally show ?thesis using Some kv by (simp add: List.map_filter_simps)
  qed
qed

text \<open>
  Claim C7. Parsing never raises: it is a total function that returns the two tables.
  With no path, or a path that does not exist, both tables are empty. Otherwise (with
  the lines of the file as universal newlines give them) the
  result is that of parsing only the lines that match the entry grammar (every other
  line is ignored); looking a key up in \<open>key_to_val\<close> gives the value of the last entry
  with that key (the first one in the reversed list of entries), and looking a value up in
  \<open>val_to_key\<close> gives the key of the first entry with that value.
\<close>

theorem parse_localizable_tables:
  "parse_localizable fs None = ([], []) \<and>
   (fs q = None \<longrightarrow> parse_localizable fs (Some q) = ([], [])) \<and>
   (fs q = Some content \<longrightarrow>
      parse_localizable fs (Some q) =
        parse_lines (filter (\<lambda>l. match_loc_line l \<noteq> None) (file_lines content)) ([], []) \<and>
      map_of (fst (parse_localizable fs (Some q))) =
        map_of (rev (List.map_filter match_loc_line (file_lines content))) \<and>
      map_of (snd (parse_localizable fs (Some q))) =
        map_of (map (\<lambda>(k, v). (v, k)) (List.map_filter match_loc_line (file_lines content))))"
  using parse_lines_filter [of "file_lines content" "([], [])"]
    parse_lines_key_to_val [of "file_lines content" "[]" "[]"]
    parse_lines_val_to_key [of "file_lines content" "[]" "[]"]
  by (simp add: parse_localizable_def)

theorem parse_localizable_tables_witness:
  "parse_localizable
     [py ''L.strings'' \<mapsto> py ''/* c */'' @ [13, 10] @ py ''\"a\" = \"x\";'' @ [13, 13] @
        py '' \"b\"=\"x\" ; '' @ [10] @ py ''\"a\" = \"y\";'' @ [10] @ py ''\"bad\" = y;'']
     (Some (py ''M.strings'')) = ([], []) \<and>
   parse_localizable
     [py ''L.strings'' \<mapsto> py ''/* c */'' @ [13, 10] @ py ''\"a\" = \"x\";'' @ [13, 13] @
        py '' \"b\"=\"x\" ; '' @ [10] @ py ''\"a\" = \"y\";'' @ [10] @ py ''\"bad\" = y;'']
     (Some (py ''L.strings'')) =
     ([(py ''a'', py ''y''), (py ''b'', py ''x'')], [(py ''x'', py ''a''), (py ''y'', py ''a'')]) \<and>
   map_of (fst (parse_localizable
     [py ''L.strings'' \<mapsto> py ''/* c */'' @ [13, 10] @ py ''\"a\" = \"x\";'' @ [13, 13] @
        py '' \"b\"=\"x\" ; '' @ [10] @ py ''\"a\" = \"y\";'' @ [10] @ py ''\"bad\" = y;'']
     (Some (py ''L.strings'')))) (py ''a'') = Some (py ''y'') \<and>
   map_of (snd (parse_localizable
     [py ''L.strings'' \<mapsto> py ''/* c */'' @ [13, 10] @ py ''\"a\" = \"x\";'' @ [13, 13] @
        py '' \"b\"=\"x\" ; '' @ [10] @ py ''\"a\" = \"y\";'' @ [10] @ py ''\"bad\" = y;'']
     (Some (py ''L.strings'')))) (py ''x'') = Some (py ''a'')"
proof -
  let ?content = "py ''/* c */'' @ [13, 10] @ py ''\"a\" = \"x\";'' @ [13, 13] @
        py '' \"b\"=\"x\" ; '' @ [10] @ py ''\"a\" = \"y\";'' @ [10] @ py ''\"bad\" = y;''"
  let ?fs = "[py ''L.strings'' \<mapsto> ?content]"
  have missing: "?fs (py ''M.strings'') = None" by (simp add: py_def)
  have there: "?fs (py ''L.strings'') = Some ?content" by simp
  have ls: "file_lines ?content =
    [py ''/* c */'' @ [10], py ''\"a\" = \"x\";'' @ [10], [10], py '' \"b\"=\"x\" ; '' @ [10],
      py ''\"a\" = \"y\";'' @ [10], py ''\"bad\" = y;'']"
    by (simp add: file_lines_def py_def)
  have es: "List.map_filter match_loc_line (file_lines ?content) =
    [(py ''a'', py ''x''), (py ''b'', py ''x''), (py ''a'', py ''y'')]"
    unfolding ls by (simp add: List.map_filter_simps eval_defs)
  have only: "filter (\<lambda>l. match_loc_line l \<noteq> None) (file_lines ?content) =
    [py ''\"a\" = \"x\";'' @ [10], py '' \"b\"=\"x\" ; '' @ [10], py ''\"a\" = \"y\";'' @ [10]]"
    unfolding ls by (simp add: eval_defs)
  from parse_localizable_tables [of ?fs "py ''M.strings''"] missing
  have a: "parse_localizable ?fs (Some (py ''M.strings'')) = ([], [])" by blast
  from parse_localizable_tables [of ?fs "py ''L.strings''" ?content] there
  have b: "parse_localizable ?fs (Some (py ''L.strings'')) =
        parse_lines (filter (\<lambda>l. match_loc_line l \<noteq> None) (file_lines ?content)) ([], [])"
    and c: "map_of (fst (parse_localizable ?fs (Some (py ''L.strings'')))) =
        map_of (rev (List.map_filter match_loc_line (file_lines ?content)))"
    and d: "map_of (snd (parse_localizable ?fs (Some (py ''L.strings'')))) =
        map_of (map (\<lambda>(k, v). (v, k)) (List.map_filter match_loc_line (file_lines ?content)))"
    by blast+
  have b': "parse_localizable ?fs (Some (py ''L.strings'')) =
     ([(py ''a'', py ''y''), (py ''b'', py ''x'')], [(py ''x'', py ''a''), (py ''y'', py ''a'')])"
    unfolding b only by (simp add: eval_defs)
  have c': "map_of (fst (parse_localizable ?fs (Some (py ''L.strings'')))) (py ''a'') = Some (py ''y'')"
    unfolding c es by (simp add: py_def)
  have d': "map_of (snd (parse_localizable ?fs (Some (py ''L.strings'')))) (py ''x'') = Some (py ''a'')"
    unfolding d es by (simp add: py_def)
  from a b' c' d' show ?thesis by blast
qed

section \<open>Properties of persisting\<close>







section \<open>Idempotence of the rewrite\<close>

subsection \<open>Lists\<close>




subsection \<open>The group of a literal\<close>









subsection \<open>Matches\<close>






subsection \<open>A text and its rewriting\<close>

lemma localized_call_unfold:
  "localized_call k =
     84 # [101, 120, 116, 40, 34] @ k @ 34 # [46, 108, 111, 99, 97, 108, 105, 122, 101, 100, 41]"
  by (simp add: localized_call_def py_def)


lemma rewritten_Cons_inv:
  "rewritten s (a # t) \<Longrightarrow> a \<noteq> 84 \<Longrightarrow> \<exists>s0. s = a # s0 \<and> rewritten s0 t"
  by (erule rewritten.cases) (auto simp: localized_call_unfold)

lemma rewritten_no_T_prefix:
  "rewritten s (p @ t') \<Longrightarrow> 84 \<notin> set p \<Longrightarrow> \<exists>s'. s = p @ s' \<and> rewritten s' t'"
proof (induction p arbitrary: s)
  case Nil
  then show ?case by simp
next
  case (Cons a p)
  from Cons.prems have "rewritten s (a # p @ t')" "a \<noteq> 84" by auto
  from rewritten_Cons_inv [OF this] obtain s0 where s0: "s = a # s0" "rewritten s0 (p @ t')"
    by blast
  from Cons.IH [OF s0(2)] Cons.prems(2) obtain s' where "s0 = p @ s'" "rewritten s' t'"
    by auto
  with s0(1) show ?case by simp
qed









subsection \<open>Scanning a rewritten call\<close>





subsection \<open>Matches of the rewritten text are matches of the text\<close>



subsection \<open>The keys the engine writes\<close>







subsection \<open>The second pass\<close>








end
